theory Spec2Isabelle
  imports Main
begin

section \<open>The in-memory database of main.py\<close>

text \<open>
  The repository is one module: a store \<open>InMemoryDBClient\<close> (a dict of values and a
  \<open>defaultdict(int)\<close> of counts) and a \<open>TransactionsHandler\<close> that wraps it and keeps a
  flat transaction log. Python mutates the objects in place; here every method takes the
  object and returns it updated. A method that can raise returns a pair: the outcome
  (\<open>Inl\<close> the exception, \<open>Inr\<close> the returned value) and the object as it is at that
  moment, so that what a raising call has already changed remains visible.
\<close>

subsection \<open>Exceptions\<close>

text \<open>
  The source raises plain \<open>Exception\<close> objects and tells them apart by message only:
  \<open>"Key ... not found"\<close> is \<open>NotFoundError\<close> here, with the key, and \<open>"No transaction to
  commit"\<close> and \<open>"No transaction to rollback"\<close> are \<open>NoActiveTransactionError\<close>.
  \<open>IndexError\<close> is what \<open>transaction_log[-1]\<close> and \<open>pop()\<close> raise on an empty list.
  \<open>NoneValue\<close> marks the one place where the source would hand Python's \<open>None\<close> to
  \<open>client.set\<close> as a value, which the store's type hints (\<open>value: int\<close>) exclude: the undo
  of an entry whose before-value and after-value are both \<open>None\<close>. Neither \<open>set\<close> nor
  \<open>delete\<close> builds such an entry (\<open>log_fits\<close> below rules them out of every reachable log).
\<close>

datatype error =
    NotFoundError string
  | NoActiveTransactionError
  | IndexError
  | NoneValue

subsection \<open>\<open>defaultdict(int)\<close>\<close>

text \<open>
  A \<open>defaultdict(int)\<close> is a dict whose read of a missing key stores 0 under that key and
  returns it. \<open>dd_read\<close> is the value a read returns, \<open>dd_touch\<close> the dict after the read,
  and \<open>dd_add\<close> the augmented assignment \<open>d[k] += n\<close> (a read followed by a store).
\<close>

definition dd_read :: "(int \<rightharpoonup> int) \<Rightarrow> int \<Rightarrow> int" where
  "dd_read d k = (case d k of None \<Rightarrow> 0 | Some n \<Rightarrow> n)"

definition dd_touch :: "(int \<rightharpoonup> int) \<Rightarrow> int \<Rightarrow> (int \<rightharpoonup> int)" where
  "dd_touch d k = (case d k of None \<Rightarrow> d(k \<mapsto> 0) | Some n \<Rightarrow> d)"

definition dd_add :: "(int \<rightharpoonup> int) \<Rightarrow> int \<Rightarrow> int \<Rightarrow> (int \<rightharpoonup> int)" where
  "dd_add d k n = (dd_touch d k)(k \<mapsto> dd_read d k + n)"

subsection \<open>\<open>InMemoryDBClient\<close>\<close>

record InMemoryDBClient =
  data :: "string \<rightharpoonup> int"
  counts :: "int \<rightharpoonup> int"

definition client_init :: InMemoryDBClient where
  "client_init = \<lparr>data = Map.empty, counts = Map.empty\<rparr>"

definition client_get :: "InMemoryDBClient \<Rightarrow> string \<Rightarrow> int option" where
  "client_get c k = (if k \<in> dom (data c) then data c k else None)"

definition client_set :: "InMemoryDBClient \<Rightarrow> string \<Rightarrow> int \<Rightarrow> InMemoryDBClient" where
  "client_set c k v =
     (let c1 = (case data c k of
                  Some old \<Rightarrow> c\<lparr>counts := dd_add (counts c) old (- 1)\<rparr>
                | None \<Rightarrow> c);
          c2 = c1\<lparr>data := (data c1)(k \<mapsto> v)\<rparr>
      in c2\<lparr>counts := dd_add (counts c2) v 1\<rparr>)"

definition client_delete ::
  "InMemoryDBClient \<Rightarrow> string \<Rightarrow> (error + unit) \<times> InMemoryDBClient" where
  "client_delete c k =
     (case data c k of
        None \<Rightarrow> (Inl (NotFoundError k), c)
      | Some old \<Rightarrow>
          (let c1 = c\<lparr>counts := dd_add (counts c) old (- 1)\<rparr>
           in (Inr (), c1\<lparr>data := (data c1)(k := None)\<rparr>)))"

definition client_count :: "InMemoryDBClient \<Rightarrow> int \<Rightarrow> int \<times> InMemoryDBClient" where
  "client_count c v = (dd_read (counts c) v, c\<lparr>counts := dd_touch (counts c) v\<rparr>)"

subsection \<open>\<open>TransactionLogEntry\<close> and the log\<close>

record TransactionLogEntry =
  key :: string
  old_value :: "int option"
  new_value :: "int option"

definition is_create_operation :: "TransactionLogEntry \<Rightarrow> bool" where
  "is_create_operation e \<longleftrightarrow> old_value e = None \<and> new_value e \<noteq> None"

text \<open>
  The log is one Python list holding the string \<open>"BEGIN"\<close> (the transaction marker) and
  \<open>TransactionLogEntry\<close> objects; \<open>append\<close> and \<open>pop\<close> work at its end, so the last
  element of the list is the top of the stack.
\<close>

datatype log_item = Marker | Entry TransactionLogEntry

subsection \<open>\<open>TransactionsHandler\<close>\<close>

record TransactionsHandler =
  client :: InMemoryDBClient
  transaction_log :: "log_item list"

definition handler_init :: TransactionsHandler where
  "handler_init = \<lparr>client = client_init, transaction_log = []\<rparr>"

definition transaction_active :: "TransactionsHandler \<Rightarrow> bool" where
  "transaction_active h \<longleftrightarrow> transaction_log h \<noteq> []"

definition handler_begin :: "TransactionsHandler \<Rightarrow> TransactionsHandler" where
  "handler_begin h = h\<lparr>transaction_log := transaction_log h @ [Marker]\<rparr>"

definition handler_commit ::
  "TransactionsHandler \<Rightarrow> (error + unit) \<times> TransactionsHandler" where
  "handler_commit h =
     (if \<not> transaction_active h then (Inl NoActiveTransactionError, h)
      else (Inr (), h\<lparr>transaction_log := []\<rparr>))"

text \<open>
  The loop of \<open>__apply_rollback__\<close>. Each round reads the last element of the log (an
  \<open>IndexError\<close> when the log is empty), stops at a marker, and otherwise pops the entry
  and undoes it on the store. An exception of \<open>client.delete\<close> leaves the loop with the
  entry already popped.
\<close>

function apply_rollback ::
  "TransactionsHandler \<Rightarrow> (error + unit) \<times> TransactionsHandler" where
  "apply_rollback h =
     (if transaction_log h = [] then (Inl IndexError, h)
      else case last (transaction_log h) of
        Marker \<Rightarrow> (Inr (), h)
      | Entry entry \<Rightarrow>
          (let h1 = h\<lparr>transaction_log := butlast (transaction_log h)\<rparr>
           in if is_create_operation entry then
                (case client_delete (client h1) (key entry) of
                   (Inl err, c) \<Rightarrow> (Inl err, h1\<lparr>client := c\<rparr>)
                 | (Inr u, c) \<Rightarrow> apply_rollback (h1\<lparr>client := c\<rparr>))
              else
                (case old_value entry of
                   None \<Rightarrow> (Inl NoneValue, h1)
                 | Some v \<Rightarrow>
                     apply_rollback (h1\<lparr>client := client_set (client h1) (key entry) v\<rparr>))))"
  by pat_completeness auto
termination
  by (relation "measure (\<lambda>h. length (transaction_log h))") auto

declare apply_rollback.simps [simp del]

text \<open>
  \<open>rollback\<close>: after the loop, \<open>transaction_log.pop()\<close> removes the marker (it raises
  \<open>IndexError\<close> on an empty list).
\<close>

definition handler_rollback ::
  "TransactionsHandler \<Rightarrow> (error + unit) \<times> TransactionsHandler" where
  "handler_rollback h =
     (if \<not> transaction_active h then (Inl NoActiveTransactionError, h)
      else case apply_rollback h of
        (Inl err, h1) \<Rightarrow> (Inl err, h1)
      | (Inr u, h1) \<Rightarrow>
          (if transaction_log h1 = [] then (Inl IndexError, h1)
           else (Inr (), h1\<lparr>transaction_log := butlast (transaction_log h1)\<rparr>)))"

definition handler_get :: "TransactionsHandler \<Rightarrow> string \<Rightarrow> int option" where
  "handler_get h k = client_get (client h) k"

definition handler_set :: "TransactionsHandler \<Rightarrow> string \<Rightarrow> int \<Rightarrow> TransactionsHandler" where
  "handler_set h k v =
     (if \<not> transaction_active h then h\<lparr>client := client_set (client h) k v\<rparr>
      else
        (let old = (if k \<notin> dom (data (client h)) then None else data (client h) k);
             h1 = h\<lparr>transaction_log := transaction_log h @
                     [Entry \<lparr>key = k, old_value = old, new_value = Some v\<rparr>]\<rparr>
         in h1\<lparr>client := client_set (client h1) k v\<rparr>))"

definition handler_delete ::
  "TransactionsHandler \<Rightarrow> string \<Rightarrow> (error + unit) \<times> TransactionsHandler" where
  "handler_delete h k =
     (if k \<notin> dom (data (client h)) then (Inl (NotFoundError k), h)
      else if \<not> transaction_active h then
        (case client_delete (client h) k of (r, c) \<Rightarrow> (r, h\<lparr>client := c\<rparr>))
      else
        (let old = data (client h) k;
             h1 = h\<lparr>transaction_log := transaction_log h @
                     [Entry \<lparr>key = k, old_value = old, new_value = None\<rparr>]\<rparr>
         in case client_delete (client h1) k of (r, c) \<Rightarrow> (r, h1\<lparr>client := c\<rparr>)))"

definition handler_count :: "TransactionsHandler \<Rightarrow> int \<Rightarrow> int \<times> TransactionsHandler" where
  "handler_count h v = (case client_count (client h) v of (n, c) \<Rightarrow> (n, h\<lparr>client := c\<rparr>))"

subsection \<open>Driving the handler\<close>

text \<open>
  The public operations of the handler as commands, and one call as a step: the outcome
  (the exception raised, or the value returned, with \<open>None\<close> for Python's \<open>None\<close>) and the
  handler afterwards. \<open>run h cs\<close> issues the calls \<open>cs\<close> one after the other; a caller that
  catches an exception goes on with the handler as the exception left it. The reachable
  states are the \<open>run handler_init cs\<close>.
\<close>

datatype command =
    Begin | Commit | Rollback
  | Get string | Set string int | Delete string | Count int

fun unit_result :: "(error + unit) \<times> TransactionsHandler \<Rightarrow>
    (error + int option) \<times> TransactionsHandler" where
  "unit_result (Inl err, h) = (Inl err, h)"
| "unit_result (Inr u, h) = (Inr None, h)"

fun step :: "TransactionsHandler \<Rightarrow> command \<Rightarrow>
    (error + int option) \<times> TransactionsHandler" where
  "step h Begin = (Inr None, handler_begin h)"
| "step h Commit = unit_result (handler_commit h)"
| "step h Rollback = unit_result (handler_rollback h)"
| "step h (Get k) = (Inr (handler_get h k), h)"
| "step h (Set k v) = (Inr None, handler_set h k v)"
| "step h (Delete k) = unit_result (handler_delete h k)"
| "step h (Count v) = (case handler_count h v of (n, h') \<Rightarrow> (Inr (Some n), h'))"

fun run :: "TransactionsHandler \<Rightarrow> command list \<Rightarrow> TransactionsHandler" where
  "run h [] = h"
| "run h (c # cs) = run (snd (step h c)) cs"

text \<open>
  The mutations a caller can issue between a \<open>begin\<close> and its \<open>rollback\<close>. A \<open>delete\<close>
  that raises is one of them: the caller catches the exception and goes on.
\<close>

datatype mutation = MSet string int | MDelete string

fun mutate :: "TransactionsHandler \<Rightarrow> mutation \<Rightarrow> TransactionsHandler" where
  "mutate h (MSet k v) = handler_set h k v"
| "mutate h (MDelete k) = snd (handler_delete h k)"

fun mutations :: "TransactionsHandler \<Rightarrow> mutation list \<Rightarrow> TransactionsHandler" where
  "mutations h [] = h"
| "mutations h (m # ms) = mutations (mutate h m) ms"

text \<open>
  \<open>nest h mss\<close>: one \<open>begin\<close> per element of \<open>mss\<close>, each followed by its mutations, with
  no commit or rollback in between. \<open>rollbacks n\<close>: \<open>n\<close> calls of \<open>rollback\<close> in a row,
  stopping at the first that raises.
\<close>

fun nest :: "TransactionsHandler \<Rightarrow> mutation list list \<Rightarrow> TransactionsHandler" where
  "nest h [] = h"
| "nest h (ms # mss) = nest (mutations (handler_begin h) ms) mss"

fun rollbacks :: "nat \<Rightarrow> TransactionsHandler \<Rightarrow> (error + unit) \<times> TransactionsHandler" where
  "rollbacks 0 h = (Inr (), h)"
| "rollbacks (Suc n) h =
     (case handler_rollback h of
        (Inl err, h') \<Rightarrow> (Inl err, h')
      | (Inr u, h') \<Rightarrow> rollbacks n h')"

subsection \<open>Notions of the specification\<close>

text \<open>
  The depth of the transaction stack is the number of markers in the flat log. Two
  stores are the same up to zero entries when their dicts of values are equal and
  every count reads the same (a missing count reads 0); two handlers, when moreover
  their logs are equal.
\<close>

definition depth :: "TransactionsHandler \<Rightarrow> nat" where
  "depth h = length (filter (\<lambda>x. x = Marker) (transaction_log h))"

definition same_client :: "InMemoryDBClient \<Rightarrow> InMemoryDBClient \<Rightarrow> bool" where
  "same_client c c' \<longleftrightarrow>
     data c = data c' \<and> (\<forall>v. dd_read (counts c) v = dd_read (counts c') v)"

definition same_handler :: "TransactionsHandler \<Rightarrow> TransactionsHandler \<Rightarrow> bool" where
  "same_handler h h' \<longleftrightarrow>
     same_client (client h) (client h') \<and> transaction_log h = transaction_log h'"

text \<open>
  Undoing one entry as the specification words it: delete the key for a creation,
  restore the before-value otherwise.
\<close>

definition undo_entry :: "TransactionLogEntry \<Rightarrow> InMemoryDBClient \<Rightarrow> InMemoryDBClient" where
  "undo_entry e c =
     (if old_value e = None \<and> new_value e \<noteq> None then snd (client_delete c (key e))
      else case old_value e of None \<Rightarrow> c | Some v \<Rightarrow> client_set c (key e) v)"

text \<open>
  The log, read from its newest item, fits the values of the store: the newest entry's
  after-value is what the store holds for its key, and with the before-value put back
  the rest of the log fits. An entry never lies at the bottom of the log.
\<close>

fun log_fits :: "log_item list \<Rightarrow> (string \<rightharpoonup> int) \<Rightarrow> bool" where
  "log_fits [] d = True"
| "log_fits (Marker # r) d = log_fits r d"
| "log_fits (Entry e # r) d =
     (r \<noteq> [] \<and> d (key e) = new_value e \<and>
      (old_value e \<noteq> None \<or> new_value e \<noteq> None) \<and>
      log_fits r (d(key e := old_value e)))"

definition count_consistent :: "InMemoryDBClient \<Rightarrow> bool" where
  "count_consistent c \<longleftrightarrow>
     finite (dom (data c)) \<and>
     (\<forall>v. dd_read (counts c) v = int (card {k. data c k = Some v}))"

text \<open>
  What every reachable handler satisfies: its log fits its store, and the counts of the
  store are the numbers of keys.
\<close>

definition handler_inv :: "TransactionsHandler \<Rightarrow> bool" where
  "handler_inv h \<longleftrightarrow>
     log_fits (rev (transaction_log h)) (data (client h)) \<and> count_consistent (client h)"

section \<open>Properties\<close>

subsection \<open>The store\<close>

lemma dd_read_add: "dd_read (dd_add d k n) x = (if x = k then dd_read d k + n else dd_read d x)"
  by (auto simp: dd_read_def dd_add_def dd_touch_def split: option.splits)

lemma dd_read_touch: "dd_read (dd_touch d k) x = dd_read d x"
  by (auto simp: dd_read_def dd_touch_def split: option.splits)

lemma data_client_set: "data (client_set c k v) = (data c)(k \<mapsto> v)"
  by (auto simp: client_set_def Let_def split: option.splits)

lemma read_client_set:
  "dd_read (counts (client_set c k v)) x =
     dd_read (counts c) x - (if data c k = Some x then 1 else 0) + (if x = v then 1 else 0)"
  by (auto simp: client_set_def Let_def dd_read_add split: option.splits)

lemma client_delete_None: "data c k = None \<Longrightarrow> client_delete c k = (Inl (NotFoundError k), c)"
  by (simp add: client_delete_def)

lemma client_delete_Some:
  assumes "data c k = Some old"
  shows "fst (client_delete c k) = Inr ()"
    and "data (snd (client_delete c k)) = (data c)(k := None)"
    and "dd_read (counts (snd (client_delete c k))) x =
           dd_read (counts c) x - (if x = old then 1 else 0)"
  using assms by (auto simp: client_delete_def Let_def dd_read_add)


subsection \<open>Counts and the number of keys\<close>

lemma keys_of_finite: "finite (dom d) \<Longrightarrow> finite {k. d k = Some x}"
  by (rule finite_subset [of _ "dom d"]) auto

lemma keys_of_upd:
  "{k'. (d(k \<mapsto> v)) k' = Some x} =
     (if x = v then insert k {k'. d k' = Some x} else {k'. d k' = Some x} - {k})"
  by auto

lemma keys_of_del: "{k'. (d(k := None)) k' = Some x} = {k'. d k' = Some x} - {k}"
  by auto

lemma card_keys_upd:
  assumes "finite (dom d)"
  shows "int (card {k'. (d(k \<mapsto> v)) k' = Some x}) =
     int (card {k'. d k' = Some x}) - (if d k = Some x then 1 else 0) + (if x = v then 1 else 0)"
proof -
  define A where "A = {k'. d k' = Some x}"
  have fin: "finite A" unfolding A_def using assms by (rule keys_of_finite)
  have mem: "k \<in> A \<longleftrightarrow> d k = Some x" by (simp add: A_def)
  have eq: "{k'. (d(k \<mapsto> v)) k' = Some x} = (if x = v then insert k A else A - {k})"
    unfolding A_def by (rule keys_of_upd)
  have pos: "k \<in> A \<Longrightarrow> 0 < card A"
    using fin by (auto simp: card_gt_0_iff)
  have "int (card (if x = v then insert k A else A - {k})) =
     int (card A) - (if d k = Some x then 1 else 0) + (if x = v then 1 else 0)"
    using fin mem pos by (auto simp: card_insert_if card_Diff_singleton_if)
  then show ?thesis unfolding eq A_def .
qed

lemma card_keys_del:
  assumes "finite (dom d)"
  shows "int (card {k'. (d(k := None)) k' = Some x}) =
     int (card {k'. d k' = Some x}) - (if d k = Some x then 1 else 0)"
proof -
  define A where "A = {k'. d k' = Some x}"
  have fin: "finite A" unfolding A_def using assms by (rule keys_of_finite)
  have mem: "k \<in> A \<longleftrightarrow> d k = Some x" by (simp add: A_def)
  have eq: "{k'. (d(k := None)) k' = Some x} = A - {k}"
    unfolding A_def by (rule keys_of_del)
  have pos: "k \<in> A \<Longrightarrow> 0 < card A"
    using fin by (auto simp: card_gt_0_iff)
  have "int (card (A - {k})) = int (card A) - (if d k = Some x then 1 else 0)"
    using fin mem pos by (auto simp: card_Diff_singleton_if)
  then show ?thesis unfolding eq A_def .
qed

lemma count_consistent_init: "count_consistent client_init"
  by (simp add: count_consistent_def client_init_def dd_read_def)

lemma count_consistent_set:
  assumes "count_consistent c"
  shows "count_consistent (client_set c k v)"
proof -
  have fin: "finite (dom (data c))" and rd: "\<And>x. dd_read (counts c) x = int (card {k. data c k = Some x})"
    using assms by (auto simp: count_consistent_def)
  have "finite (dom (data (client_set c k v)))"
    using fin by (simp add: data_client_set)
  moreover have "dd_read (counts (client_set c k v)) x =
      int (card {k'. data (client_set c k v) k' = Some x})" for x
    by (simp only: read_client_set data_client_set card_keys_upd [OF fin] rd)
  ultimately show ?thesis by (simp add: count_consistent_def)
qed

lemma count_consistent_delete:
  assumes "count_consistent c"
  shows "count_consistent (snd (client_delete c k))"
proof (cases "data c k")
  case None
  then show ?thesis using assms by (simp add: client_delete_None)
next
  case (Some old)
  have fin: "finite (dom (data c))" and rd: "\<And>x. dd_read (counts c) x = int (card {k. data c k = Some x})"
    using assms by (auto simp: count_consistent_def)
  have "finite (dom (data (snd (client_delete c k))))"
    using fin by (simp add: client_delete_Some(2) [OF Some])
  moreover have "dd_read (counts (snd (client_delete c k))) x =
      int (card {k'. data (snd (client_delete c k)) k' = Some x})" for x
  proof -
    have "dd_read (counts (snd (client_delete c k))) x =
        int (card {k'. data c k' = Some x}) - (if data c k = Some x then 1 else 0)"
      using Some by (auto simp: client_delete_Some(3) [OF Some] rd)
    then show ?thesis
      by (simp only: client_delete_Some(2) [OF Some] card_keys_del [OF fin])
  qed
  ultimately show ?thesis by (simp add: count_consistent_def)
qed

subsection \<open>Unfolding the rollback loop\<close>

lemma apply_rollback_Nil:
  "transaction_log h = [] \<Longrightarrow> apply_rollback h = (Inl IndexError, h)"
  by (subst apply_rollback.simps) simp

lemma apply_rollback_Marker:
  "transaction_log h = l @ [Marker] \<Longrightarrow> apply_rollback h = (Inr (), h)"
  by (subst apply_rollback.simps) simp

lemma apply_rollback_Entry:
  "transaction_log h = l @ [Entry e] \<Longrightarrow>
   apply_rollback h =
     (if is_create_operation e then
        (case client_delete (client h) (key e) of
           (Inl err, c) \<Rightarrow> (Inl err, h\<lparr>transaction_log := l, client := c\<rparr>)
         | (Inr u, c) \<Rightarrow> apply_rollback (h\<lparr>transaction_log := l, client := c\<rparr>))
      else
        (case old_value e of
           None \<Rightarrow> (Inl NoneValue, h\<lparr>transaction_log := l\<rparr>)
         | Some v \<Rightarrow>
             apply_rollback (h\<lparr>transaction_log := l, client := client_set (client h) (key e) v\<rparr>)))"
  by (subst apply_rollback.simps) (simp add: Let_def split: option.splits)

lemma client_delete_present:
  "data c k = Some old \<Longrightarrow> client_delete c k = (Inr (), snd (client_delete c k))"
  by (simp add: client_delete_def Let_def)

lemma apply_rollback_create:
  assumes "transaction_log h = l @ [Entry e]"
    and "old_value e = None" and "new_value e \<noteq> None"
    and "data (client h) (key e) = Some v"
  shows "apply_rollback h =
    apply_rollback (h\<lparr>transaction_log := l, client := undo_entry e (client h)\<rparr>)"
proof -
  have "is_create_operation e" using assms by (simp add: is_create_operation_def)
  moreover have "client_delete (client h) (key e) = (Inr (), undo_entry e (client h))"
    using assms client_delete_present [OF assms(4)] by (simp add: undo_entry_def)
  ultimately show ?thesis
    by (simp add: apply_rollback_Entry [OF assms(1)])
qed

lemma apply_rollback_restore:
  assumes "transaction_log h = l @ [Entry e]" and "old_value e = Some v"
  shows "apply_rollback h =
    apply_rollback (h\<lparr>transaction_log := l, client := undo_entry e (client h)\<rparr>)"
  using assms
  by (simp add: apply_rollback_Entry [OF assms(1)] is_create_operation_def undo_entry_def)

lemma data_undo_entry:
  assumes "d = data c" and "d (key e) = new_value e"
    and "old_value e \<noteq> None \<or> new_value e \<noteq> None"
  shows "data (undo_entry e c) = d(key e := old_value e)"
proof (cases "old_value e")
  case None
  then obtain v where v: "new_value e = Some v" using assms by auto
  then have "data c (key e) = Some v" using assms by simp
  then show ?thesis using None v assms
    by (simp add: undo_entry_def client_delete_Some(2))
next
  case (Some v)
  then show ?thesis using assms by (simp add: undo_entry_def data_client_set)
qed

lemma apply_rollback_step:
  assumes "transaction_log h = l @ [Entry e]"
    and "data (client h) (key e) = new_value e"
    and "old_value e \<noteq> None \<or> new_value e \<noteq> None"
  shows "apply_rollback h =
    apply_rollback (h\<lparr>transaction_log := l, client := undo_entry e (client h)\<rparr>)"
proof (cases "old_value e")
  case None
  then obtain v where "new_value e = Some v" using assms by auto
  then show ?thesis using None assms
    by (intro apply_rollback_create [where v = v]) auto
next
  case (Some v)
  then show ?thesis using assms by (intro apply_rollback_restore)
qed

subsection \<open>A log that fits is rolled back without an exception\<close>

lemma apply_rollback_fits:
  assumes "log_fits (rev (transaction_log h)) (data (client h))"
    and "transaction_log h \<noteq> []"
  shows "fst (apply_rollback h) = Inr () \<and>
     transaction_log (snd (apply_rollback h)) \<noteq> [] \<and>
     last (transaction_log (snd (apply_rollback h))) = Marker \<and>
     log_fits (rev (transaction_log (snd (apply_rollback h))))
       (data (client (snd (apply_rollback h))))"
  using assms
proof (induction "transaction_log h" arbitrary: h rule: rev_induct)
  case Nil
  then show ?case by simp
next
  case (snoc x xs)
  have log: "transaction_log h = xs @ [x]" using snoc.hyps(2) by simp
  show ?case
  proof (cases x)
    case Marker
    then show ?thesis using log snoc.prems
      by (simp add: apply_rollback_Marker [of h xs])
  next
    case (Entry e)
    have loge: "transaction_log h = xs @ [Entry e]" using log Entry by simp
    have fits: "xs \<noteq> []" "data (client h) (key e) = new_value e"
      "old_value e \<noteq> None \<or> new_value e \<noteq> None"
      "log_fits (rev xs) ((data (client h))(key e := old_value e))"
      using snoc.prems(1) loge by auto
    let ?h = "h\<lparr>transaction_log := xs, client := undo_entry e (client h)\<rparr>"
    have eq: "apply_rollback h = apply_rollback ?h"
      using loge fits(2,3) by (rule apply_rollback_step)
    have d: "data (client ?h) = (data (client h))(key e := old_value e)"
      using data_undo_entry [OF refl fits(2,3)] by simp
    have "fst (apply_rollback ?h) = Inr () \<and>
       transaction_log (snd (apply_rollback ?h)) \<noteq> [] \<and>
       last (transaction_log (snd (apply_rollback ?h))) = Marker \<and>
       log_fits (rev (transaction_log (snd (apply_rollback ?h))))
         (data (client (snd (apply_rollback ?h))))"
    proof (rule snoc.hyps(1))
      show "xs = transaction_log ?h" by simp
      show "log_fits (rev (transaction_log ?h)) (data (client ?h))"
        using fits(4) d by simp
      show "transaction_log ?h \<noteq> []" using fits(1) by simp
    qed
    then show ?thesis unfolding eq .
  qed
qed

lemma count_consistent_undo: "count_consistent c \<Longrightarrow> count_consistent (undo_entry e c)"
  by (auto simp: undo_entry_def count_consistent_set count_consistent_delete split: option.splits)

lemma apply_rollback_count_consistent:
  assumes "count_consistent (client h)"
  shows "count_consistent (client (snd (apply_rollback h)))"
  using assms
proof (induction "transaction_log h" arbitrary: h rule: rev_induct)
  case Nil
  then show ?case by (simp add: apply_rollback_Nil)
next
  case (snoc x xs)
  have log: "transaction_log h = xs @ [x]" using snoc.hyps(2) by simp
  show ?case
  proof (cases x)
    case Marker
    then show ?thesis using log snoc.prems by (simp add: apply_rollback_Marker [of h xs])
  next
    case (Entry e)
    have loge: "transaction_log h = xs @ [Entry e]" using log Entry by simp
    have del: "count_consistent (snd (client_delete (client h) (key e)))"
      using snoc.prems by (rule count_consistent_delete)
    have IH: "count_consistent c \<Longrightarrow>
        count_consistent (client (snd (apply_rollback (h\<lparr>transaction_log := xs, client := c\<rparr>))))" for c
      by (rule snoc.hyps(1)) simp_all
    show ?thesis
    proof (cases "client_delete (client h) (key e)")
      case (Pair r c)
      then have c: "count_consistent c" using del by simp
      show ?thesis
        using Pair c snoc.prems IH [OF c]
          IH [OF count_consistent_set [OF snoc.prems]]
        by (auto simp: apply_rollback_Entry [OF loge] split: sum.splits option.splits)
    qed
  qed
qed

subsection \<open>The invariant of reachable states\<close>

lemma handler_inv_init: "handler_inv handler_init"
  by (simp add: handler_inv_def handler_init_def count_consistent_init)

lemma handler_inv_begin: "handler_inv h \<Longrightarrow> handler_inv (handler_begin h)"
  by (simp add: handler_inv_def handler_begin_def)

lemma handler_inv_commit: "handler_inv h \<Longrightarrow> handler_inv (snd (handler_commit h))"
  by (simp add: handler_inv_def handler_commit_def)

lemma handler_inv_set:
  assumes "handler_inv h"
  shows "handler_inv (handler_set h k v)"
proof (cases "transaction_log h = []")
  case True
  then show ?thesis using assms
    by (simp add: handler_inv_def handler_set_def transaction_active_def count_consistent_set)
next
  case False
  have "(if k \<notin> dom (data (client h)) then None else data (client h) k) = data (client h) k"
    by (cases "data (client h) k") auto
  then show ?thesis using assms False
    by (simp add: handler_inv_def handler_set_def transaction_active_def Let_def
        count_consistent_set data_client_set)
qed

lemma handler_delete_None:
  "data (client h) k = None \<Longrightarrow> handler_delete h k = (Inl (NotFoundError k), h)"
  by (simp add: handler_delete_def dom_def)

lemma handler_delete_Some:
  assumes "data (client h) k = Some old"
  shows "fst (handler_delete h k) = Inr ()"
    and "client (snd (handler_delete h k)) = snd (client_delete (client h) k)"
    and "transaction_log (snd (handler_delete h k)) =
      (if transaction_active h
       then transaction_log h @ [Entry \<lparr>key = k, old_value = Some old, new_value = None\<rparr>]
       else transaction_log h)"
  using assms client_delete_present [OF assms]
  by (auto simp: handler_delete_def dom_def Let_def split: prod.splits)

lemma handler_inv_delete:
  assumes "handler_inv h"
  shows "handler_inv (snd (handler_delete h k))"
proof (cases "data (client h) k")
  case None
  then show ?thesis using assms by (simp add: handler_delete_None)
next
  case (Some old)
  have cc: "count_consistent (client (snd (handler_delete h k)))"
    using assms by (simp add: handler_delete_Some(2) [OF Some] handler_inv_def count_consistent_delete)
  have d: "data (client (snd (handler_delete h k))) = (data (client h))(k := None)"
    by (simp add: handler_delete_Some(2) [OF Some] client_delete_Some(2) [OF Some])
  have "(data (client h))(k \<mapsto> old) = data (client h)"
    using Some by (simp add: fun_upd_idem)
  then have "log_fits (rev (transaction_log (snd (handler_delete h k))))
      (data (client (snd (handler_delete h k))))"
    using assms Some
    by (simp add: handler_delete_Some(3) [OF Some] d handler_inv_def transaction_active_def)
  then show ?thesis using cc by (simp add: handler_inv_def)
qed

lemma handler_rollback_inactive:
  "transaction_log h = [] \<Longrightarrow> handler_rollback h = (Inl NoActiveTransactionError, h)"
  by (simp add: handler_rollback_def transaction_active_def)

lemma handler_rollback_fits:
  assumes "log_fits (rev (transaction_log h)) (data (client h))"
    and "transaction_log h \<noteq> []"
  shows "fst (handler_rollback h) = Inr ()"
    and "log_fits (rev (transaction_log (snd (handler_rollback h))))
       (data (client (snd (handler_rollback h))))"
    and "client (snd (handler_rollback h)) = client (snd (apply_rollback h))"
    and "transaction_log (snd (handler_rollback h)) =
       butlast (transaction_log (snd (apply_rollback h)))"
proof -
  obtain r h1 where ar: "apply_rollback h = (r, h1)" by (cases "apply_rollback h")
  from apply_rollback_fits [OF assms] ar
  have r: "r = Inr ()" and ne: "transaction_log h1 \<noteq> []"
    and la: "last (transaction_log h1) = Marker"
    and fits: "log_fits (rev (transaction_log h1)) (data (client h1))"
    by simp_all
  have hr: "handler_rollback h = (Inr (), h1\<lparr>transaction_log := butlast (transaction_log h1)\<rparr>)"
    using assms(2) ar r ne by (simp add: handler_rollback_def transaction_active_def)
  obtain l where l: "transaction_log h1 = l @ [Marker]"
    using ne la by (metis append_butlast_last_id)
  have "log_fits (rev (butlast (transaction_log h1))) (data (client h1))"
    using fits by (simp add: l)
  then show "log_fits (rev (transaction_log (snd (handler_rollback h))))
       (data (client (snd (handler_rollback h))))"
    by (simp add: hr)
  show "fst (handler_rollback h) = Inr ()" by (simp add: hr)
  show "client (snd (handler_rollback h)) = client (snd (apply_rollback h))"
    by (simp add: hr ar)
  show "transaction_log (snd (handler_rollback h)) =
       butlast (transaction_log (snd (apply_rollback h)))"
    by (simp add: hr ar)
qed

lemma handler_inv_rollback:
  assumes "handler_inv h"
  shows "handler_inv (snd (handler_rollback h))"
proof (cases "transaction_log h = []")
  case True
  then show ?thesis using assms by (simp add: handler_rollback_inactive)
next
  case False
  have fits: "log_fits (rev (transaction_log h)) (data (client h))"
    using assms by (simp add: handler_inv_def)
  have "count_consistent (client (snd (apply_rollback h)))"
    using assms by (simp add: handler_inv_def apply_rollback_count_consistent)
  then show ?thesis
    using handler_rollback_fits(2,3) [OF fits False] by (simp add: handler_inv_def)
qed

lemma handler_inv_count: "handler_inv h \<Longrightarrow> handler_inv (snd (handler_count h v))"
  by (simp add: handler_inv_def handler_count_def client_count_def count_consistent_def
      dd_read_touch)

lemma handler_inv_step: "handler_inv h \<Longrightarrow> handler_inv (snd (step h c))"
proof (cases c)
  case Commit
  assume "handler_inv h"
  then show ?thesis using Commit handler_inv_commit [of h]
    by (cases "handler_commit h" rule: unit_result.cases) auto
next
  case Rollback
  assume "handler_inv h"
  then show ?thesis using Rollback handler_inv_rollback [of h]
    by (cases "handler_rollback h" rule: unit_result.cases) auto
next
  case (Delete k)
  assume "handler_inv h"
  then show ?thesis using Delete handler_inv_delete [of h k]
    by (cases "handler_delete h k" rule: unit_result.cases) auto
next
  case (Count v)
  assume "handler_inv h"
  then show ?thesis using Count handler_inv_count [of h v]
    by (auto split: prod.splits)
qed (auto simp: handler_inv_begin handler_inv_set)

lemma handler_inv_run: "handler_inv h \<Longrightarrow> handler_inv (run h cs)"
  by (induction cs arbitrary: h) (auto simp: handler_inv_step)

lemma handler_inv_reachable: "handler_inv (run handler_init cs)"
  by (rule handler_inv_run) (rule handler_inv_init)

subsection \<open>The shape of a log that fits\<close>

lemma log_fits_hd:
  "log_fits (rev l) d \<Longrightarrow> l \<noteq> [] \<Longrightarrow> hd l = Marker"
proof (induction l arbitrary: d rule: rev_induct)
  case Nil
  then show ?case by simp
next
  case (snoc x xs)
  show ?case
  proof (cases x)
    case Marker
    then show ?thesis using snoc by (cases "xs = []") auto
  next
    case (Entry e)
    then show ?thesis using snoc by auto
  qed
qed

lemma top_frame_exists:
  "Marker \<in> set l \<Longrightarrow> \<exists>pre es. l = pre @ Marker # map Entry es"
proof (induction l rule: rev_induct)
  case Nil
  then show ?case by simp
next
  case (snoc x xs)
  show ?case
  proof (cases x)
    case Marker
    then have "xs @ [x] = xs @ Marker # map Entry []" by simp
    then show ?thesis by blast
  next
    case (Entry e)
    then have "Marker \<in> set xs" using snoc.prems by simp
    then obtain pre es where "xs = pre @ Marker # map Entry es"
      using snoc.IH by blast
    then have "xs @ [x] = pre @ Marker # map Entry (es @ [e])" using Entry by simp
    then show ?thesis by blast
  qed
qed

subsection \<open>The loop, entry by entry\<close>

lemma handler_same_fields:
  "transaction_log h = l \<Longrightarrow> h\<lparr>transaction_log := l, client := client h\<rparr> = h"
  by (cases h) simp

lemma apply_rollback_partial:
  assumes "transaction_log h = pre @ Marker # map Entry es"
    and "log_fits (rev (map Entry es) @ Marker # r) (data (client h))"
    and "n \<le> length es"
  shows "apply_rollback h =
    apply_rollback (h\<lparr>transaction_log := pre @ Marker # map Entry (take n es),
      client := fold undo_entry (rev (drop n es)) (client h)\<rparr>)"
  using assms
proof (induction es arbitrary: h rule: rev_induct)
  case Nil
  then show ?case by (simp add: handler_same_fields)
next
  case (snoc e es)
  show ?case
  proof (cases "n = Suc (length es)")
    case True
    then show ?thesis using snoc.prems(1) by (simp add: handler_same_fields)
  next
    case False
    then have n: "n \<le> length es" using snoc.prems(3) by simp
    have loge: "transaction_log h = (pre @ Marker # map Entry es) @ [Entry e]"
      using snoc.prems(1) by simp
    have fits: "data (client h) (key e) = new_value e"
      "old_value e \<noteq> None \<or> new_value e \<noteq> None"
      "log_fits (rev (map Entry es) @ Marker # r) ((data (client h))(key e := old_value e))"
      using snoc.prems(2) by auto
    let ?h = "h\<lparr>transaction_log := pre @ Marker # map Entry es,
      client := undo_entry e (client h)\<rparr>"
    have eq: "apply_rollback h = apply_rollback ?h"
      using loge fits(1,2) by (rule apply_rollback_step)
    have d: "data (client ?h) = (data (client h))(key e := old_value e)"
      using data_undo_entry [OF refl fits(1,2)] by simp
    have "apply_rollback ?h =
      apply_rollback (?h\<lparr>transaction_log := pre @ Marker # map Entry (take n es),
        client := fold undo_entry (rev (drop n es)) (client ?h)\<rparr>)"
    proof (rule snoc.IH)
      show "transaction_log ?h = pre @ Marker # map Entry es" by simp
      show "log_fits (rev (map Entry es) @ Marker # r) (data (client ?h))"
        using fits(3) d by simp
      show "n \<le> length es" by (rule n)
    qed
    then show ?thesis using n by (simp add: eq)
  qed
qed

lemma fits_before_undo:
  assumes "log_fits (rev (map Entry es) @ Marker # r) (data c)" and "i < length es"
  shows "data (fold undo_entry (rev (drop (Suc i) es)) c) (key (es ! i)) = new_value (es ! i)"
  using assms
proof (induction es arbitrary: c rule: rev_induct)
  case Nil
  then show ?case by simp
next
  case (snoc e es)
  have fits: "data c (key e) = new_value e"
    "old_value e \<noteq> None \<or> new_value e \<noteq> None"
    "log_fits (rev (map Entry es) @ Marker # r) ((data c)(key e := old_value e))"
    using snoc.prems(1) by auto
  show ?case
  proof (cases "i = length es")
    case True
    then show ?thesis using fits(1) by simp
  next
    case False
    then have i: "i < length es" using snoc.prems(2) by simp
    have "log_fits (rev (map Entry es) @ Marker # r) (data (undo_entry e c))"
      using fits(3) data_undo_entry [OF refl fits(1,2)] by simp
    from snoc.IH [OF this i] show ?thesis using i by (simp add: nth_append)
  qed
qed

lemma rollback_frame:
  assumes "transaction_log h = pre @ Marker # map Entry es"
    and "log_fits (rev (map Entry es) @ Marker # r) (data (client h))"
  shows "handler_rollback h =
    (Inr (), h\<lparr>transaction_log := pre, client := fold undo_entry (rev es) (client h)\<rparr>)"
proof -
  let ?h = "h\<lparr>transaction_log := pre @ [Marker],
    client := fold undo_entry (rev es) (client h)\<rparr>"
  have "apply_rollback h = apply_rollback ?h"
    using apply_rollback_partial [OF assms, of 0] by simp
  also have "\<dots> = (Inr (), ?h)"
    by (rule apply_rollback_Marker [of _ pre]) simp
  finally show ?thesis
    using assms(1) by (simp add: handler_rollback_def transaction_active_def)
qed

subsection \<open>Stores that are the same up to zero entries\<close>

lemma same_client_refl: "same_client c c"
  by (simp add: same_client_def)

lemma same_client_trans: "same_client a b \<Longrightarrow> same_client b c \<Longrightarrow> same_client a c"
  by (simp add: same_client_def)

lemma same_handler_refl: "same_handler h h"
  by (simp add: same_handler_def same_client_refl)

lemma same_handler_trans: "same_handler a b \<Longrightarrow> same_handler b c \<Longrightarrow> same_handler a c"
  by (auto simp: same_handler_def intro: same_client_trans)

lemma client_set_cong:
  "same_client a b \<Longrightarrow> same_client (client_set a k v) (client_set b k v)"
  by (simp add: same_client_def data_client_set read_client_set)

lemma client_delete_cong:
  assumes "same_client a b"
  shows "fst (client_delete a k) = fst (client_delete b k)"
    and "same_client (snd (client_delete a k)) (snd (client_delete b k))"
proof -
  have d: "data a = data b" and r: "\<And>v. dd_read (counts a) v = dd_read (counts b) v"
    using assms by (simp_all add: same_client_def)
  show "fst (client_delete a k) = fst (client_delete b k)"
    using d by (simp add: client_delete_def Let_def split: option.splits)
  show "same_client (snd (client_delete a k)) (snd (client_delete b k))"
  proof (cases "data a k")
    case None
    then show ?thesis using assms d by (simp add: client_delete_None)
  next
    case (Some old)
    then have "data b k = Some old" using d by simp
    then show ?thesis using Some d r
      by (simp add: same_client_def client_delete_Some)
  qed
qed

lemma undo_entry_cong:
  "same_client a b \<Longrightarrow> same_client (undo_entry e a) (undo_entry e b)"
  by (simp add: undo_entry_def client_set_cong client_delete_cong(2) split: option.splits)

lemma fold_undo_cong:
  "same_client a b \<Longrightarrow> same_client (fold undo_entry es a) (fold undo_entry es b)"
  by (induction es arbitrary: a b) (simp_all add: undo_entry_cong)

lemma apply_rollback_cong:
  assumes "same_handler h g"
  shows "fst (apply_rollback h) = fst (apply_rollback g) \<and>
     same_handler (snd (apply_rollback h)) (snd (apply_rollback g))"
  using assms
proof (induction "transaction_log h" arbitrary: h g rule: rev_induct)
  case Nil
  then have "transaction_log h = []" "transaction_log g = []"
    by (simp_all add: same_handler_def)
  then show ?case using Nil.prems by (simp add: apply_rollback_Nil)
next
  case (snoc x xs)
  have logh: "transaction_log h = xs @ [x]" using snoc.hyps(2) by simp
  then have logg: "transaction_log g = xs @ [x]" using snoc.prems by (simp add: same_handler_def)
  have sc: "same_client (client h) (client g)" using snoc.prems by (simp add: same_handler_def)
  have IH: "same_client a b \<Longrightarrow>
      fst (apply_rollback (h\<lparr>transaction_log := xs, client := a\<rparr>)) =
      fst (apply_rollback (g\<lparr>transaction_log := xs, client := b\<rparr>)) \<and>
      same_handler (snd (apply_rollback (h\<lparr>transaction_log := xs, client := a\<rparr>)))
        (snd (apply_rollback (g\<lparr>transaction_log := xs, client := b\<rparr>)))" for a b
    by (rule snoc.hyps(1)) (simp_all add: same_handler_def)
  show ?case
  proof (cases x)
    case Marker
    then show ?thesis using logh logg snoc.prems
      by (simp add: apply_rollback_Marker [of _ xs])
  next
    case (Entry e)
    have lh: "transaction_log h = xs @ [Entry e]" and lg: "transaction_log g = xs @ [Entry e]"
      using logh logg Entry by simp_all
    show ?thesis
    proof (cases "is_create_operation e")
      case True
      obtain ra ca where a: "client_delete (client h) (key e) = (ra, ca)"
        by (cases "client_delete (client h) (key e)")
      obtain rb cb where b: "client_delete (client g) (key e) = (rb, cb)"
        by (cases "client_delete (client g) (key e)")
      have rr: "ra = rb" and cc: "same_client ca cb"
        using client_delete_cong [OF sc, of "key e"] a b by simp_all
      show ?thesis
      proof (cases ra)
        case (Inl err)
        then show ?thesis using True a b rr cc
          by (simp add: apply_rollback_Entry [OF lh] apply_rollback_Entry [OF lg]
              same_handler_def)
      next
        case (Inr u)
        then show ?thesis using True a b rr IH [OF cc]
          by (simp add: apply_rollback_Entry [OF lh] apply_rollback_Entry [OF lg])
      qed
    next
      case False
      show ?thesis
      proof (cases "old_value e")
        case None
        then show ?thesis using False sc
          by (simp add: apply_rollback_Entry [OF lh] apply_rollback_Entry [OF lg]
              same_handler_def)
      next
        case (Some v)
        then show ?thesis using False IH [OF client_set_cong [OF sc, of "key e" v]]
          by (simp add: apply_rollback_Entry [OF lh] apply_rollback_Entry [OF lg])
      qed
    qed
  qed
qed

lemma handler_rollback_cong:
  assumes "same_handler h g"
  shows "fst (handler_rollback h) = fst (handler_rollback g) \<and>
     same_handler (snd (handler_rollback h)) (snd (handler_rollback g))"
proof -
  obtain r h1 where a: "apply_rollback h = (r, h1)" by (cases "apply_rollback h")
  obtain s g1 where b: "apply_rollback g = (s, g1)" by (cases "apply_rollback g")
  have rs: "r = s" and sh: "same_handler h1 g1"
    using apply_rollback_cong [OF assms] a b by simp_all
  have l: "transaction_log h = transaction_log g" using assms by (simp add: same_handler_def)
  show ?thesis using assms a b rs sh l
    by (cases r) (auto simp: handler_rollback_def transaction_active_def same_handler_def)
qed

lemma rollbacks_cong:
  "same_handler h g \<Longrightarrow>
   fst (rollbacks n h) = fst (rollbacks n g) \<and>
   same_handler (snd (rollbacks n h)) (snd (rollbacks n g))"
proof (induction n arbitrary: h g)
  case 0
  then show ?case by simp
next
  case (Suc n)
  obtain r h1 where a: "handler_rollback h = (r, h1)" by (cases "handler_rollback h")
  obtain s g1 where b: "handler_rollback g = (s, g1)" by (cases "handler_rollback g")
  have rs: "r = s" and sh: "same_handler h1 g1"
    using handler_rollback_cong [OF Suc.prems] a b by simp_all
  show ?case using a b rs sh Suc.IH [OF sh] by (cases r) auto
qed

subsection \<open>Mutations inside a transaction and their undo\<close>

lemma undo_after_set:
  "same_client
     (undo_entry \<lparr>key = k, old_value = data c k, new_value = Some v\<rparr> (client_set c k v)) c"
proof (cases "data c k")
  case None
  have p: "data (client_set c k v) k = Some v" by (simp add: data_client_set)
  show ?thesis using None
    by (auto simp: same_client_def undo_entry_def client_delete_Some [OF p]
        data_client_set read_client_set)
next
  case (Some old)
  then have "(data c)(k \<mapsto> old) = data c" by (simp add: fun_upd_idem)
  then show ?thesis using Some
    by (auto simp: same_client_def undo_entry_def data_client_set read_client_set)
qed

lemma undo_after_delete:
  assumes "data c k = Some old"
  shows "same_client
     (undo_entry \<lparr>key = k, old_value = Some old, new_value = None\<rparr> (snd (client_delete c k))) c"
proof -
  have "(data c)(k \<mapsto> old) = data c" using assms by (simp add: fun_upd_idem)
  then show ?thesis using assms
    by (auto simp: same_client_def undo_entry_def data_client_set read_client_set
        client_delete_Some [OF assms])
qed

lemma mutate_log:
  assumes "transaction_log h \<noteq> []"
  shows "\<exists>es. transaction_log (mutate h m) = transaction_log h @ map Entry es \<and>
     same_client (fold undo_entry (rev es) (client (mutate h m))) (client h) \<and>
     (\<forall>r. r \<noteq> [] \<longrightarrow> log_fits r (data (client h)) \<longrightarrow>
        log_fits (rev (map Entry es) @ r) (data (client (mutate h m))))"
proof (cases m)
  case (MSet k v)
  let ?e = "\<lparr>key = k, old_value = data (client h) k, new_value = Some v\<rparr>"
  have old: "(if k \<notin> dom (data (client h)) then None else data (client h) k) = data (client h) k"
    by (cases "data (client h) k") auto
  have l: "transaction_log (mutate h m) = transaction_log h @ map Entry [?e]"
    and c: "client (mutate h m) = client_set (client h) k v"
    using assms MSet old by (simp_all add: handler_set_def transaction_active_def Let_def)
  have "same_client (fold undo_entry (rev [?e]) (client (mutate h m))) (client h)"
    using undo_after_set [of k "client h" v] by (simp add: c)
  moreover have "\<forall>r. r \<noteq> [] \<longrightarrow> log_fits r (data (client h)) \<longrightarrow>
        log_fits (rev (map Entry [?e]) @ r) (data (client (mutate h m)))"
    by (simp add: c data_client_set)
  ultimately show ?thesis using l by blast
next
  case (MDelete k)
  show ?thesis
  proof (cases "data (client h) k")
    case None
    have "mutate h m = h" using MDelete None by (simp add: handler_delete_None)
    then have "transaction_log (mutate h m) = transaction_log h @ map Entry [] \<and>
       same_client (fold undo_entry (rev []) (client (mutate h m))) (client h) \<and>
       (\<forall>r. r \<noteq> [] \<longrightarrow> log_fits r (data (client h)) \<longrightarrow>
          log_fits (rev (map Entry []) @ r) (data (client (mutate h m))))"
      by (simp add: same_client_refl)
    then show ?thesis by blast
  next
    case (Some old)
    let ?e = "\<lparr>key = k, old_value = Some old, new_value = None\<rparr>"
    have l: "transaction_log (mutate h m) = transaction_log h @ map Entry [?e]"
      and c: "client (mutate h m) = snd (client_delete (client h) k)"
      using assms MDelete by (simp_all add: handler_delete_Some [OF Some] transaction_active_def)
    have idem: "(data (client h))(k \<mapsto> old) = data (client h)"
      using Some by (simp add: fun_upd_idem)
    have "same_client (fold undo_entry (rev [?e]) (client (mutate h m))) (client h)"
      using undo_after_delete [OF Some] by (simp add: c)
    moreover have "\<forall>r. r \<noteq> [] \<longrightarrow> log_fits r (data (client h)) \<longrightarrow>
        log_fits (rev (map Entry [?e]) @ r) (data (client (mutate h m)))"
      by (simp add: c client_delete_Some(2) [OF Some] idem)
    ultimately show ?thesis using l by blast
  qed
qed

lemma mutations_log:
  assumes "transaction_log h \<noteq> []"
  shows "\<exists>es. transaction_log (mutations h ms) = transaction_log h @ map Entry es \<and>
     same_client (fold undo_entry (rev es) (client (mutations h ms))) (client h) \<and>
     (\<forall>r. r \<noteq> [] \<longrightarrow> log_fits r (data (client h)) \<longrightarrow>
        log_fits (rev (map Entry es) @ r) (data (client (mutations h ms))))"
  using assms
proof (induction ms arbitrary: h)
  case Nil
  have "transaction_log (mutations h []) = transaction_log h @ map Entry [] \<and>
     same_client (fold undo_entry (rev []) (client (mutations h []))) (client h) \<and>
     (\<forall>r. r \<noteq> [] \<longrightarrow> log_fits r (data (client h)) \<longrightarrow>
        log_fits (rev (map Entry []) @ r) (data (client (mutations h []))))"
    by (simp add: same_client_refl)
  then show ?case by blast
next
  case (Cons m ms)
  obtain es1 where l1: "transaction_log (mutate h m) = transaction_log h @ map Entry es1"
    and s1: "same_client (fold undo_entry (rev es1) (client (mutate h m))) (client h)"
    and f1: "\<And>r. r \<noteq> [] \<Longrightarrow> log_fits r (data (client h)) \<Longrightarrow>
        log_fits (rev (map Entry es1) @ r) (data (client (mutate h m)))"
    using mutate_log [OF Cons.prems, of m] by blast
  have ne: "transaction_log (mutate h m) \<noteq> []" using l1 Cons.prems by simp
  obtain es2 where l2: "transaction_log (mutations (mutate h m) ms) =
        transaction_log (mutate h m) @ map Entry es2"
    and s2: "same_client (fold undo_entry (rev es2) (client (mutations (mutate h m) ms)))
        (client (mutate h m))"
    and f2: "\<And>r. r \<noteq> [] \<Longrightarrow> log_fits r (data (client (mutate h m))) \<Longrightarrow>
        log_fits (rev (map Entry es2) @ r) (data (client (mutations (mutate h m) ms)))"
    using Cons.IH [OF ne] by blast
  have l: "transaction_log (mutations h (m # ms)) = transaction_log h @ map Entry (es1 @ es2)"
    using l1 l2 by simp
  have "same_client
      (fold undo_entry (rev es1) (fold undo_entry (rev es2) (client (mutations (mutate h m) ms))))
      (fold undo_entry (rev es1) (client (mutate h m)))"
    using s2 by (rule fold_undo_cong)
  then have s: "same_client (fold undo_entry (rev (es1 @ es2)) (client (mutations h (m # ms))))
      (client h)"
    using s1 by (simp add: same_client_trans)
  have f: "log_fits (rev (map Entry (es1 @ es2)) @ r) (data (client (mutations h (m # ms))))"
    if "r \<noteq> []" "log_fits r (data (client h))" for r
  proof -
    have "log_fits (rev (map Entry es1) @ r) (data (client (mutate h m)))"
      using that by (rule f1)
    then have "log_fits (rev (map Entry es2) @ rev (map Entry es1) @ r)
        (data (client (mutations (mutate h m) ms)))"
      using that(1) by (intro f2) simp_all
    then show ?thesis by simp
  qed
  show ?case using l s f by blast
qed

lemma begin_mutations_rollback:
  "\<exists>es. transaction_log (mutations (handler_begin h) ms) =
       transaction_log h @ Marker # map Entry es \<and>
     fst (handler_rollback (mutations (handler_begin h) ms)) = Inr () \<and>
     client (snd (handler_rollback (mutations (handler_begin h) ms))) =
       fold undo_entry (rev es) (client (mutations (handler_begin h) ms)) \<and>
     same_handler (snd (handler_rollback (mutations (handler_begin h) ms))) h"
proof -
  let ?b = "handler_begin h"
  let ?m = "mutations ?b ms"
  have lb: "transaction_log ?b = transaction_log h @ [Marker]" and cb: "client ?b = client h"
    by (simp_all add: handler_begin_def)
  then have ne: "transaction_log ?b \<noteq> []" by simp
  obtain es where l: "transaction_log ?m = transaction_log ?b @ map Entry es"
    and s: "same_client (fold undo_entry (rev es) (client ?m)) (client ?b)"
    and f: "\<And>r. r \<noteq> [] \<Longrightarrow> log_fits r (data (client ?b)) \<Longrightarrow>
        log_fits (rev (map Entry es) @ r) (data (client ?m))"
    using mutations_log [OF ne, of ms] by blast
  have l': "transaction_log ?m = transaction_log h @ Marker # map Entry es"
    using l lb by simp
  have fits: "log_fits (rev (map Entry es) @ Marker # []) (data (client ?m))"
    by (rule f) simp_all
  have hr: "handler_rollback ?m =
      (Inr (), ?m\<lparr>transaction_log := transaction_log h,
         client := fold undo_entry (rev es) (client ?m)\<rparr>)"
    using l' fits by (rule rollback_frame)
  have "same_handler (snd (handler_rollback ?m)) h"
    using s cb by (simp add: hr same_handler_def)
  then show ?thesis using l' hr by auto
qed

subsection \<open>Evaluating concrete runs\<close>

lemmas eval_defs =
  handler_init_def client_init_def handler_begin_def handler_commit_def
  handler_rollback_def handler_get_def handler_set_def handler_delete_def
  handler_count_def transaction_active_def client_get_def client_set_def
  client_delete_def client_count_def dd_read_def dd_touch_def dd_add_def
  is_create_operation_def depth_def undo_entry_def Let_def apply_rollback.simps

section \<open>The claims\<close>

lemma handler_count_read: "fst (handler_count h v) = dd_read (counts (client h)) v"
  by (simp add: handler_count_def client_count_def)

text \<open>
  Claim C2 (count consistency). After any sequence of calls on a fresh handler (\<open>set\<close>
  and \<open>delete\<close> inside or outside transactions, \<open>begin\<close>, \<open>commit\<close>, \<open>rollback\<close> with its
  replay, reads, calls that raised), \<open>count(v)\<close> returns the number of keys that the store
  maps to \<open>v\<close>, for every integer \<open>v\<close>.
\<close>

theorem count_consistency:
  "fst (handler_count (run handler_init cs) v) =
     int (card {k. data (client (run handler_init cs)) k = Some v})"
  using handler_inv_reachable [of cs]
  by (simp add: handler_count_read handler_inv_def count_consistent_def)

theorem count_consistency_witness:
  "int (card {k. data (client (run handler_init
      [Set ''a'' 4, Begin, Set ''b'' 4, Set ''c'' 5, Delete ''c'', Rollback, Set ''d'' 4])) k
        = Some 4}) = 2"
  using count_consistency
    [of "[Set ''a'' 4, Begin, Set ''b'' 4, Set ''c'' 5, Delete ''c'', Rollback, Set ''d'' 4]" 4]
  by (simp add: eval_defs)

text \<open>
  Claim C3 (commit). With no transaction active \<open>commit\<close> raises
  \<open>NoActiveTransactionError\<close> and changes nothing. Otherwise it returns, the whole log is
  gone (every open frame: the depth is 0), so that a \<open>rollback\<close> right after it raises
  \<open>NoActiveTransactionError\<close>. In both cases the store (values and counts) is exactly
  as before: nothing is replayed.
\<close>

theorem commit_discards_all:
  "(\<not> transaction_active h \<longrightarrow> handler_commit h = (Inl NoActiveTransactionError, h)) \<and>
   (transaction_active h \<longrightarrow>
      fst (handler_commit h) = Inr () \<and>
      transaction_log (snd (handler_commit h)) = [] \<and>
      depth (snd (handler_commit h)) = 0 \<and>
      fst (handler_rollback (snd (handler_commit h))) = Inl NoActiveTransactionError) \<and>
   client (snd (handler_commit h)) = client h"
  by (simp add: handler_commit_def handler_rollback_def transaction_active_def depth_def)

theorem commit_discards_all_witness:
  "transaction_active (run handler_init [Set ''a'' 1, Begin, Set ''a'' 2, Begin, Set ''a'' 4]) \<and>
   depth (run handler_init [Set ''a'' 1, Begin, Set ''a'' 2, Begin, Set ''a'' 4]) = 2 \<and>
   depth (snd (handler_commit
     (run handler_init [Set ''a'' 1, Begin, Set ''a'' 2, Begin, Set ''a'' 4]))) = 0 \<and>
   fst (handler_rollback (snd (handler_commit
     (run handler_init [Set ''a'' 1, Begin, Set ''a'' 2, Begin, Set ''a'' 4])))) =
       Inl NoActiveTransactionError \<and>
   data (client (snd (handler_commit
     (run handler_init [Set ''a'' 1, Begin, Set ''a'' 2, Begin, Set ''a'' 4])))) ''a'' = Some 4 \<and>
   \<not> transaction_active handler_init \<and>
   handler_commit handler_init = (Inl NoActiveTransactionError, handler_init)"
  using commit_discards_all [of "run handler_init [Set ''a'' 1, Begin, Set ''a'' 2, Begin, Set ''a'' 4]"]
    commit_discards_all [of handler_init]
  by (simp add: eval_defs)

text \<open>
  Claim C5 (delete). \<open>handler.delete(key)\<close> raises exactly when the key is unset in the
  store, whether or not a transaction is active; the exception is \<open>NotFoundError\<close> and
  the handler is unchanged. When the key is set, \<open>delete\<close> returns, the key is removed,
  and the log has gained the undo entry (key, old value, None) if a transaction is active
  and is unchanged otherwise.
\<close>

theorem delete_fails_iff_unset:
  "((\<exists>err. fst (handler_delete h k) = Inl err) \<longleftrightarrow> data (client h) k = None) \<and>
   (data (client h) k = None \<longrightarrow> handler_delete h k = (Inl (NotFoundError k), h)) \<and>
   (\<forall>old. data (client h) k = Some old \<longrightarrow>
      fst (handler_delete h k) = Inr () \<and>
      data (client (snd (handler_delete h k))) = (data (client h))(k := None) \<and>
      transaction_log (snd (handler_delete h k)) =
        (if transaction_active h
         then transaction_log h @ [Entry \<lparr>key = k, old_value = Some old, new_value = None\<rparr>]
         else transaction_log h))"
proof (cases "data (client h) k")
  case None
  then show ?thesis by (simp add: handler_delete_None)
next
  case (Some old)
  then show ?thesis
    by (simp add: handler_delete_Some [OF Some] client_delete_Some(2) [OF Some])
qed

theorem delete_fails_iff_unset_witness:
  "data (client (run handler_init [Set ''a'' 1, Begin])) ''b'' = None \<and>
   handler_delete (run handler_init [Set ''a'' 1, Begin]) ''b'' =
     (Inl (NotFoundError ''b''), run handler_init [Set ''a'' 1, Begin]) \<and>
   data (client (run handler_init [Set ''a'' 1, Begin])) ''a'' = Some 1 \<and>
   fst (handler_delete (run handler_init [Set ''a'' 1, Begin]) ''a'') = Inr () \<and>
   data (client (snd (handler_delete (run handler_init [Set ''a'' 1, Begin]) ''a''))) ''a'' = None \<and>
   transaction_log (snd (handler_delete (run handler_init [Set ''a'' 1, Begin]) ''a'')) =
     [Marker, Entry \<lparr>key = ''a'', old_value = Some 1, new_value = None\<rparr>]"
  using delete_fails_iff_unset [of "run handler_init [Set ''a'' 1, Begin]" "''b''"]
    delete_fails_iff_unset [of "run handler_init [Set ''a'' 1, Begin]" "''a''"]
  by (simp add: eval_defs)

text \<open>
  Claim C7 (the count index never goes negative). After any sequence of calls on a fresh
  handler every count reads at least 0, and every entry stored in the count index is at
  least 0. A \<open>client.set\<close> moves one unit in a single call: the count of the value the key
  held before goes down by one and the count of the new value goes up by one (no change
  when both are the same value), all other counts keep their reading.
\<close>

theorem count_index_never_negative:
  "0 \<le> dd_read (counts (client (run handler_init cs))) v \<and>
   (\<forall>n. counts (client (run handler_init cs)) v = Some n \<longrightarrow> 0 \<le> n) \<and>
   (\<forall>x. dd_read (counts (client_set c k w)) x =
      dd_read (counts c) x - (if data c k = Some x then 1 else 0) + (if x = w then 1 else 0))"
proof -
  have "dd_read (counts (client (run handler_init cs))) v =
      int (card {k. data (client (run handler_init cs)) k = Some v})"
    using handler_inv_reachable [of cs] by (simp add: handler_inv_def count_consistent_def)
  then have "0 \<le> dd_read (counts (client (run handler_init cs))) v" by simp
  then show ?thesis by (auto simp: read_client_set) (simp add: dd_read_def)
qed

theorem count_index_never_negative_witness:
  "counts (client (run handler_init [Set ''a'' 1, Begin, Set ''a'' 4, Rollback])) 4 = Some 0 \<and>
   dd_read (counts (client (run handler_init [Set ''a'' 1, Begin, Set ''a'' 4, Rollback]))) 4 = 0 \<and>
   dd_read (counts (client_set (client (run handler_init [Set ''a'' 1])) ''a'' 4)) 1 = 0 \<and>
   dd_read (counts (client_set (client (run handler_init [Set ''a'' 1])) ''a'' 4)) 4 = 1"
  using count_index_never_negative
    [of "[Set ''a'' 1, Begin, Set ''a'' 4, Rollback]" 4 "client (run handler_init [Set ''a'' 1])"
      "''a''" 4]
  by (simp add: eval_defs)

text \<open>
  Claim C8 (count has no side effects), as stated, fails: \<open>counts\<close> is a
  \<open>defaultdict(int)\<close>, and \<open>self.counts[value]\<close> stores 0 under a value that has no entry
  yet. On a fresh handler \<open>count(5)\<close> turns the empty count index into \<open>{5: 0}\<close>.
\<close>

theorem count_touches_index_counterexample:
  "counts (client handler_init) 5 = None \<and>
   counts (client (snd (handler_count handler_init 5))) 5 = Some 0 \<and>
   counts (client (snd (handler_count handler_init 5))) \<noteq> counts (client handler_init)"
proof -
  have a: "counts (client handler_init) 5 = None"
    and b: "counts (client (snd (handler_count handler_init 5))) 5 = Some 0"
    by (simp_all add: eval_defs)
  then have "counts (client (snd (handler_count handler_init 5))) 5 \<noteq>
      counts (client handler_init) 5" by simp
  then have "counts (client (snd (handler_count handler_init 5))) \<noteq> counts (client handler_init)"
    by (metis)
  then show ?thesis using a b by simp
qed

text \<open>
  Claim C8, amended. \<open>count(value)\<close> returns the stored count of the value, 0 when the
  value has no entry, and never raises. It leaves the values of the store and the
  transaction log unchanged, and every count reads as before (a missing entry reading 0);
  the count index itself gains the entry \<open>value: 0\<close> when the value had none, and is
  unchanged otherwise.
\<close>

theorem count_reads_unchanged:
  "fst (handler_count h v) = dd_read (counts (client h)) v \<and>
   (counts (client h) v = None \<longrightarrow> fst (handler_count h v) = 0) \<and>
   step h (Count v) = (Inr (Some (dd_read (counts (client h)) v)), snd (handler_count h v)) \<and>
   data (client (snd (handler_count h v))) = data (client h) \<and>
   transaction_log (snd (handler_count h v)) = transaction_log h \<and>
   (\<forall>x. dd_read (counts (client (snd (handler_count h v)))) x = dd_read (counts (client h)) x) \<and>
   counts (client (snd (handler_count h v))) =
     (if counts (client h) v = None then (counts (client h))(v \<mapsto> 0) else counts (client h))"
  by (auto simp: handler_count_def client_count_def dd_read_touch)
    (auto simp: dd_read_def dd_touch_def)

theorem count_reads_unchanged_witness:
  "counts (client handler_init) 5 = None \<and> fst (handler_count handler_init 5) = 0 \<and>
   data (client (snd (handler_count handler_init 5))) = data (client handler_init) \<and>
   dd_read (counts (client (snd (handler_count handler_init 5)))) 5 = 0"
  using count_reads_unchanged [of handler_init 5]
  by (simp add: eval_defs)

lemma log_shape:
  assumes "log_fits (rev l) d"
  shows "(l = [] \<or> hd l = Marker) \<and>
    (\<forall>i<length l. (\<exists>e. l ! i = Entry e) \<longrightarrow> (\<exists>j<i. l ! j = Marker)) \<and>
    (l \<noteq> [] \<longleftrightarrow> 0 < length (filter (\<lambda>x. x = Marker) l))"
proof (cases "l = []")
  case True
  then show ?thesis by simp
next
  case False
  have hd: "hd l = Marker" using assms False by (rule log_fits_hd)
  then have l0: "l ! 0 = Marker" using False by (simp add: hd_conv_nth)
  have "\<exists>j<i. l ! j = Marker" if "i < length l" "l ! i = Entry e" for i e
  proof -
    have "i \<noteq> 0"
    proof
      assume "i = 0"
      with that l0 show False by simp
    qed
    then show ?thesis using l0 by auto
  qed
  moreover have "Marker \<in> set l" using hd False by (metis hd_in_set)
  then have "filter (\<lambda>x. x = Marker) l \<noteq> []" by (simp add: filter_empty_conv)
  ultimately show ?thesis using hd False by auto
qed

text \<open>
  Claim C9 (shape of the flat log). After any sequence of calls on a fresh handler the
  log is empty or starts with a marker, and every entry in it has a marker somewhere
  before it. So the log is non-empty exactly when the depth (the number of markers, the
  open scopes) is positive, and on a non-empty log the replay loop returns without an
  exception, at a marker, with the log still non-empty: it never reads the last element
  of an empty list.
\<close>

theorem flat_log_shape:
  "(transaction_log (run handler_init cs) = [] \<or>
      hd (transaction_log (run handler_init cs)) = Marker) \<and>
   (\<forall>i<length (transaction_log (run handler_init cs)).
      (\<exists>e. transaction_log (run handler_init cs) ! i = Entry e) \<longrightarrow>
      (\<exists>j<i. transaction_log (run handler_init cs) ! j = Marker)) \<and>
   (transaction_active (run handler_init cs) \<longleftrightarrow> 0 < depth (run handler_init cs)) \<and>
   (transaction_active (run handler_init cs) \<longrightarrow>
      fst (apply_rollback (run handler_init cs)) = Inr () \<and>
      transaction_log (snd (apply_rollback (run handler_init cs))) \<noteq> [] \<and>
      last (transaction_log (snd (apply_rollback (run handler_init cs)))) = Marker)"
proof -
  let ?h = "run handler_init cs"
  have fits: "log_fits (rev (transaction_log ?h)) (data (client ?h))"
    using handler_inv_reachable [of cs] by (simp add: handler_inv_def)
  note shape = log_shape [OF fits]
  have a: "transaction_log ?h = [] \<or> hd (transaction_log ?h) = Marker"
    using shape by blast
  have b: "\<forall>i<length (transaction_log ?h).
      (\<exists>e. transaction_log ?h ! i = Entry e) \<longrightarrow> (\<exists>j<i. transaction_log ?h ! j = Marker)"
    using shape by blast
  have "transaction_log ?h \<noteq> [] \<longleftrightarrow>
      0 < length (filter (\<lambda>x. x = Marker) (transaction_log ?h))"
    using shape by blast
  then have c: "transaction_active ?h \<longleftrightarrow> 0 < depth ?h"
    by (simp only: transaction_active_def depth_def)
  have d: "transaction_active ?h \<longrightarrow>
      fst (apply_rollback ?h) = Inr () \<and>
      transaction_log (snd (apply_rollback ?h)) \<noteq> [] \<and>
      last (transaction_log (snd (apply_rollback ?h))) = Marker"
    using apply_rollback_fits [OF fits] by (simp add: transaction_active_def)
  show ?thesis using a b c d by (intro conjI)
qed

theorem flat_log_shape_witness:
  "transaction_log (run handler_init [Set ''a'' 1, Begin, Set ''b'' 2, Begin, Set ''b'' 6]) =
     [Marker, Entry \<lparr>key = ''b'', old_value = None, new_value = Some 2\<rparr>,
      Marker, Entry \<lparr>key = ''b'', old_value = Some 2, new_value = Some 6\<rparr>] \<and>
   transaction_active (run handler_init [Set ''a'' 1, Begin, Set ''b'' 2, Begin, Set ''b'' 6]) \<and>
   depth (run handler_init [Set ''a'' 1, Begin, Set ''b'' 2, Begin, Set ''b'' 6]) = 2 \<and>
   fst (apply_rollback
     (run handler_init [Set ''a'' 1, Begin, Set ''b'' 2, Begin, Set ''b'' 6])) = Inr () \<and>
   transaction_log (snd (apply_rollback
     (run handler_init [Set ''a'' 1, Begin, Set ''b'' 2, Begin, Set ''b'' 6]))) =
     [Marker, Entry \<lparr>key = ''b'', old_value = None, new_value = Some 2\<rparr>, Marker]"
  using flat_log_shape [of "[Set ''a'' 1, Begin, Set ''b'' 2, Begin, Set ''b'' 6]"]
  by (simp add: eval_defs)

text \<open>
  Claim C10 (the replay of a rollback never raises). After any sequence of calls on a
  fresh handler, \<open>rollback\<close> returns when a transaction is active and raises
  \<open>NoActiveTransactionError\<close>, changing nothing, when none is. A log with a transaction
  active ends in a top frame: a marker and the entries \<open>es\<close> recorded since. For each of them the loop comes to the state in which that
  entry is the last item of the log, after the later ones have been undone; in that state
  the store holds the entry's after-value under its key, so the key of a creation entry
  is present when \<open>client.delete\<close> is called on it.
\<close>

theorem rollback_replay_never_fails:
  "fst (handler_rollback (run handler_init cs)) =
     (if transaction_active (run handler_init cs) then Inr ()
      else Inl NoActiveTransactionError) \<and>
   (\<not> transaction_active (run handler_init cs) \<longrightarrow>
      snd (handler_rollback (run handler_init cs)) = run handler_init cs) \<and>
   (transaction_active (run handler_init cs) \<longrightarrow>
      (\<exists>pre es. transaction_log (run handler_init cs) = pre @ Marker # map Entry es)) \<and>
   (\<forall>pre es i.
      transaction_log (run handler_init cs) = pre @ Marker # map Entry es \<and> i < length es \<longrightarrow>
      apply_rollback (run handler_init cs) =
        apply_rollback ((run handler_init cs)
          \<lparr>transaction_log := pre @ Marker # map Entry (take (Suc i) es),
           client := fold undo_entry (rev (drop (Suc i) es)) (client (run handler_init cs))\<rparr>) \<and>
      data (fold undo_entry (rev (drop (Suc i) es)) (client (run handler_init cs)))
        (key (es ! i)) = new_value (es ! i) \<and>
      (is_create_operation (es ! i) \<longrightarrow>
        key (es ! i) \<in>
          dom (data (fold undo_entry (rev (drop (Suc i) es)) (client (run handler_init cs))))))"
proof -
  let ?h = "run handler_init cs"
  have fits: "log_fits (rev (transaction_log ?h)) (data (client ?h))"
    using handler_inv_reachable [of cs] by (simp add: handler_inv_def)
  have a: "fst (handler_rollback ?h) =
     (if transaction_active ?h then Inr () else Inl NoActiveTransactionError)"
    using handler_rollback_fits(1) [OF fits]
    by (simp add: transaction_active_def handler_rollback_inactive)
  have b: "\<not> transaction_active ?h \<longrightarrow> snd (handler_rollback ?h) = ?h"
    by (simp add: transaction_active_def handler_rollback_inactive)
  have c: "apply_rollback ?h =
        apply_rollback (?h\<lparr>transaction_log := pre @ Marker # map Entry (take (Suc i) es),
           client := fold undo_entry (rev (drop (Suc i) es)) (client ?h)\<rparr>) \<and>
      data (fold undo_entry (rev (drop (Suc i) es)) (client ?h)) (key (es ! i)) =
        new_value (es ! i) \<and>
      (is_create_operation (es ! i) \<longrightarrow>
        key (es ! i) \<in> dom (data (fold undo_entry (rev (drop (Suc i) es)) (client ?h))))"
    if l: "transaction_log ?h = pre @ Marker # map Entry es" and i: "i < length es"
    for pre es i
  proof -
    have f: "log_fits (rev (map Entry es) @ Marker # rev pre) (data (client ?h))"
      using fits by (simp add: l)
    have 1: "apply_rollback ?h =
        apply_rollback (?h\<lparr>transaction_log := pre @ Marker # map Entry (take (Suc i) es),
           client := fold undo_entry (rev (drop (Suc i) es)) (client ?h)\<rparr>)"
      using l f by (rule apply_rollback_partial) (use i in simp)
    have 2: "data (fold undo_entry (rev (drop (Suc i) es)) (client ?h)) (key (es ! i)) =
        new_value (es ! i)"
      using f i by (rule fits_before_undo)
    show ?thesis using 1 2 by (auto simp: is_create_operation_def)
  qed
  have t: "transaction_active ?h \<longrightarrow>
      (\<exists>pre es. transaction_log ?h = pre @ Marker # map Entry es)"
  proof
    assume "transaction_active ?h"
    then have ne: "transaction_log ?h \<noteq> []" by (simp add: transaction_active_def)
    then have "hd (transaction_log ?h) = Marker" using fits by (intro log_fits_hd)
    then have "Marker \<in> set (transaction_log ?h)" using ne by (metis hd_in_set)
    then show "\<exists>pre es. transaction_log ?h = pre @ Marker # map Entry es"
      by (rule top_frame_exists)
  qed
  show ?thesis using a b t c by blast
qed

theorem rollback_replay_never_fails_witness:
  "transaction_log (run handler_init [Begin, Set ''a'' 1, Set ''b'' 2, Set ''a'' 3]) =
     [] @ Marker # map Entry
       [\<lparr>key = ''a'', old_value = None, new_value = Some 1\<rparr>,
        \<lparr>key = ''b'', old_value = None, new_value = Some 2\<rparr>,
        \<lparr>key = ''a'', old_value = Some 1, new_value = Some 3\<rparr>] \<and>
   is_create_operation \<lparr>key = ''a'', old_value = None, new_value = Some 1\<rparr> \<and>
   data (fold undo_entry
       (rev [\<lparr>key = ''b'', old_value = None, new_value = Some 2\<rparr>,
             \<lparr>key = ''a'', old_value = Some 1, new_value = Some 3\<rparr>])
       (client (run handler_init [Begin, Set ''a'' 1, Set ''b'' 2, Set ''a'' 3]))) ''a'' = Some 1 \<and>
   transaction_active (run handler_init [Begin, Set ''a'' 1, Set ''b'' 2, Set ''a'' 3]) \<and>
   fst (handler_rollback (run handler_init [Begin, Set ''a'' 1, Set ''b'' 2, Set ''a'' 3])) = Inr () \<and>
   \<not> transaction_active (run handler_init [Set ''a'' 1]) \<and>
   handler_rollback (run handler_init [Set ''a'' 1]) =
     (Inl NoActiveTransactionError, run handler_init [Set ''a'' 1])"
  using rollback_replay_never_fails [of "[Begin, Set ''a'' 1, Set ''b'' 2, Set ''a'' 3]"]
    rollback_replay_never_fails [of "[Set ''a'' 1]"]
  by (simp add: eval_defs)

lemma step_raises:
  assumes "log_fits (rev (transaction_log h)) (data (client h))"
    and "step h c = (Inl err, h')"
  shows "h' = h \<and>
    ((\<exists>k. c = Delete k \<and> err = NotFoundError k \<and> data (client h) k = None) \<or>
     ((c = Commit \<or> c = Rollback) \<and> err = NoActiveTransactionError \<and> \<not> transaction_active h))"
proof (cases c)
  case Begin
  then show ?thesis using assms(2) by simp
next
  case Commit
  then show ?thesis using assms(2)
    by (auto simp: handler_commit_def split: if_splits)
next
  case Rollback
  show ?thesis
  proof (cases "transaction_log h = []")
    case True
    then show ?thesis using assms(2) Rollback
      by (auto simp: handler_rollback_inactive transaction_active_def)
  next
    case False
    obtain r h1 where hr: "handler_rollback h = (r, h1)" by (cases "handler_rollback h")
    then have "r = Inr ()" using handler_rollback_fits(1) [OF assms(1) False] by simp
    then show ?thesis using assms(2) Rollback hr by simp
  qed
next
  case (Get k)
  then show ?thesis using assms(2) by simp
next
  case (Set k v)
  then show ?thesis using assms(2) by simp
next
  case (Delete k)
  show ?thesis
  proof (cases "data (client h) k")
    case None
    then show ?thesis using assms(2) Delete by (auto simp: handler_delete_None)
  next
    case (Some old)
    obtain r h1 where hd: "handler_delete h k = (r, h1)" by (cases "handler_delete h k")
    then have "r = Inr ()" using handler_delete_Some(1) [OF Some] by simp
    then show ?thesis using assms(2) Delete hd by simp
  qed
next
  case (Count v)
  then show ?thesis using assms(2) by (simp split: prod.splits)
qed

text \<open>
  Claim C6 (failure atomicity). In every state reached by calls on a fresh handler, a call
  that raises leaves the handler (values, count index and log) exactly as it was. The
  call is then a \<open>delete\<close> of an unset key, raising \<open>NotFoundError\<close>, or a \<open>commit\<close> or
  \<open>rollback\<close> with no transaction active, raising \<open>NoActiveTransactionError\<close>; nothing else
  raises.
\<close>

theorem failure_atomicity:
  "step (run handler_init cs) c = (Inl err, h') \<Longrightarrow>
   h' = run handler_init cs \<and>
   ((\<exists>k. c = Delete k \<and> err = NotFoundError k \<and> data (client (run handler_init cs)) k = None) \<or>
    ((c = Commit \<or> c = Rollback) \<and> err = NoActiveTransactionError \<and>
      \<not> transaction_active (run handler_init cs)))"
proof -
  assume a: "step (run handler_init cs) c = (Inl err, h')"
  have "log_fits (rev (transaction_log (run handler_init cs)))
      (data (client (run handler_init cs)))"
    using handler_inv_reachable [of cs] by (simp add: handler_inv_def)
  then show ?thesis using a by (rule step_raises)
qed

theorem failure_atomicity_witness:
  "step (run handler_init [Set ''a'' 1, Begin, Set ''a'' 2]) (Delete ''b'') =
     (Inl (NotFoundError ''b''),
      snd (step (run handler_init [Set ''a'' 1, Begin, Set ''a'' 2]) (Delete ''b''))) \<and>
   snd (step (run handler_init [Set ''a'' 1, Begin, Set ''a'' 2]) (Delete ''b'')) =
     run handler_init [Set ''a'' 1, Begin, Set ''a'' 2] \<and>
   step (run handler_init [Set ''a'' 1]) Rollback =
     (Inl NoActiveTransactionError, snd (step (run handler_init [Set ''a'' 1]) Rollback)) \<and>
   snd (step (run handler_init [Set ''a'' 1]) Rollback) = run handler_init [Set ''a'' 1]"
proof -
  have 1: "step (run handler_init [Set ''a'' 1, Begin, Set ''a'' 2]) (Delete ''b'') =
     (Inl (NotFoundError ''b''),
      snd (step (run handler_init [Set ''a'' 1, Begin, Set ''a'' 2]) (Delete ''b'')))"
    by (simp add: eval_defs)
  have 2: "step (run handler_init [Set ''a'' 1]) Rollback =
     (Inl NoActiveTransactionError, snd (step (run handler_init [Set ''a'' 1]) Rollback))"
    by (simp add: eval_defs)
  show ?thesis
    using 1 2 failure_atomicity [OF 1] failure_atomicity [OF 2] by simp
qed

text \<open>
  Claim C1 (rollback is a true inverse). From any handler state \<open>h\<close>, after \<open>begin\<close> and
  any sequence of \<open>set\<close> and \<open>delete\<close> calls (a \<open>delete\<close> of an unset key raises and is
  passed over), the log is the log of \<open>h\<close>, a marker and one entry per mutation;
  \<open>rollback\<close> returns, the store it leaves is the store before it with the entries undone
  from the newest to the oldest (the key deleted for a creation entry, the before-value
  set otherwise), and that store has the values of \<open>h\<close> and reads every count as \<open>h\<close> does
  (a missing count reading 0); the log is the log of \<open>h\<close> again.
\<close>

theorem rollback_true_inverse:
  "\<exists>es. transaction_log (mutations (handler_begin h) ms) =
       transaction_log h @ Marker # map Entry es \<and>
     fst (handler_rollback (mutations (handler_begin h) ms)) = Inr () \<and>
     client (snd (handler_rollback (mutations (handler_begin h) ms))) =
       fold undo_entry (rev es) (client (mutations (handler_begin h) ms)) \<and>
     data (client (snd (handler_rollback (mutations (handler_begin h) ms)))) = data (client h) \<and>
     (\<forall>v. dd_read (counts (client (snd (handler_rollback (mutations (handler_begin h) ms))))) v =
          dd_read (counts (client h)) v) \<and>
     transaction_log (snd (handler_rollback (mutations (handler_begin h) ms))) =
       transaction_log h"
  using begin_mutations_rollback [of h ms]
  by (auto simp: same_handler_def same_client_def)

theorem rollback_true_inverse_witness:
  "data (client (mutations (handler_begin (run handler_init [Set ''a'' 1, Set ''b'' 2]))
      [MSet ''a'' 4, MDelete ''b'', MSet ''c'' 4, MSet ''a'' 5, MDelete ''z''])) ''a'' = Some 5 \<and>
   data (client (snd (handler_rollback
     (mutations (handler_begin (run handler_init [Set ''a'' 1, Set ''b'' 2]))
      [MSet ''a'' 4, MDelete ''b'', MSet ''c'' 4, MSet ''a'' 5, MDelete ''z''])))) =
     data (client (run handler_init [Set ''a'' 1, Set ''b'' 2])) \<and>
   data (client (snd (handler_rollback
     (mutations (handler_begin (run handler_init [Set ''a'' 1, Set ''b'' 2]))
      [MSet ''a'' 4, MDelete ''b'', MSet ''c'' 4, MSet ''a'' 5, MDelete ''z''])))) ''a'' = Some 1 \<and>
   dd_read (counts (client (snd (handler_rollback
     (mutations (handler_begin (run handler_init [Set ''a'' 1, Set ''b'' 2]))
      [MSet ''a'' 4, MDelete ''b'', MSet ''c'' 4, MSet ''a'' 5, MDelete ''z'']))))) 4 = 0"
  using rollback_true_inverse [of "run handler_init [Set ''a'' 1, Set ''b'' 2]"
      "[MSet ''a'' 4, MDelete ''b'', MSet ''c'' 4, MSet ''a'' 5, MDelete ''z'']"]
  by (auto simp: eval_defs)

lemma nest_snoc: "nest h (mss @ [ms]) = mutations (handler_begin (nest h mss)) ms"
  by (induction mss arbitrary: h) simp_all

lemma depth_begin_mutations: "depth (mutations (handler_begin h) ms) = Suc (depth h)"
proof -
  obtain es where "transaction_log (mutations (handler_begin h) ms) =
      transaction_log h @ Marker # map Entry es"
    using begin_mutations_rollback [of h ms] by blast
  then show ?thesis by (simp add: depth_def filter_empty_conv)
qed

lemma depth_nest: "depth (nest h mss) = depth h + length mss"
  by (induction mss arbitrary: h) (simp_all add: depth_begin_mutations)

lemma rollbacks_nest:
  "j \<le> length mss \<Longrightarrow>
   fst (rollbacks j (nest h mss)) = Inr () \<and>
   same_handler (snd (rollbacks j (nest h mss))) (nest h (take (length mss - j) mss))"
proof (induction j arbitrary: mss)
  case 0
  then show ?case by (simp add: same_handler_refl)
next
  case (Suc j)
  then obtain mss' ms where mss: "mss = mss' @ [ms]"
    by (cases mss rule: rev_cases) auto
  let ?x = "nest h mss"
  have x: "?x = mutations (handler_begin (nest h mss')) ms"
    by (simp add: mss nest_snoc)
  obtain r h1 where hr: "handler_rollback ?x = (r, h1)" by (cases "handler_rollback ?x")
  have r: "r = Inr ()" and sh: "same_handler h1 (nest h mss')"
    using begin_mutations_rollback [of "nest h mss'" ms] hr by (auto simp: x)
  have j: "j \<le> length mss'" using Suc.prems mss by simp
  have IH: "fst (rollbacks j (nest h mss')) = Inr () \<and>
     same_handler (snd (rollbacks j (nest h mss'))) (nest h (take (length mss' - j) mss'))"
    using j by (rule Suc.IH)
  have cong: "fst (rollbacks j h1) = fst (rollbacks j (nest h mss')) \<and>
     same_handler (snd (rollbacks j h1)) (snd (rollbacks j (nest h mss')))"
    using sh by (rule rollbacks_cong)
  have step: "rollbacks (Suc j) ?x = rollbacks j h1" using hr r by simp
  have tk: "take (length mss - Suc j) mss = take (length mss' - j) mss'"
    using mss by simp
  have "same_handler (snd (rollbacks j h1)) (nest h (take (length mss' - j) mss'))"
    using cong IH by (blast intro: same_handler_trans)
  then show ?case using cong IH by (simp only: step tk)
qed

lemma rollbacks_add:
  "rollbacks (n + m) h =
     (case rollbacks n h of (Inl err, h') \<Rightarrow> (Inl err, h') | (Inr u, h') \<Rightarrow> rollbacks m h')"
proof (induction n arbitrary: h)
  case 0
  then show ?case by simp
next
  case (Suc n)
  then show ?case by (cases "handler_rollback h" rule: unit_result.cases) simp_all
qed

text \<open>
  Claim C4 (nesting depth tracks begins). Let \<open>nest h mss\<close> be \<open>h\<close> after \<open>N = length mss\<close>
  calls of \<open>begin\<close>, each followed by any \<open>set\<close> and \<open>delete\<close> calls, with no commit or
  rollback. For every \<open>j \<le> N\<close>, \<open>j\<close> calls of \<open>rollback\<close> in a row all return and lead to the
  state that was there just before the \<open>j\<close>-th last \<open>begin\<close>: the same values, the same
  reading of every count and the same log, so the outer frames and their entries are
  untouched and each rollback has undone what was done since its own \<open>begin\<close>. The depth
  is that of \<open>h\<close> plus \<open>N - j\<close>. When no transaction was active in \<open>h\<close>, a transaction is still
  active after \<open>j\<close> rollbacks exactly when \<open>j < N\<close>, and after \<open>N\<close> of them one more \<open>rollback\<close>
  raises \<open>NoActiveTransactionError\<close>: exactly \<open>N\<close> rollbacks lead back to no transaction.
\<close>

theorem nesting_depth_tracks_begins:
  "j \<le> length mss \<Longrightarrow>
   fst (rollbacks j (nest h mss)) = Inr () \<and>
   same_handler (snd (rollbacks j (nest h mss))) (nest h (take (length mss - j) mss)) \<and>
   depth (nest h mss) = depth h + length mss \<and>
   depth (snd (rollbacks j (nest h mss))) = depth h + (length mss - j) \<and>
   (\<not> transaction_active h \<longrightarrow>
      (transaction_active (snd (rollbacks j (nest h mss))) \<longleftrightarrow> j < length mss) \<and>
      fst (rollbacks (Suc (length mss)) (nest h mss)) = Inl NoActiveTransactionError)"
proof -
  assume j: "j \<le> length mss"
  let ?r = "snd (rollbacks j (nest h mss))"
  let ?t = "nest h (take (length mss - j) mss)"
  have a: "fst (rollbacks j (nest h mss)) = Inr ()" and b: "same_handler ?r ?t"
    using rollbacks_nest [OF j, of h] by simp_all
  have log: "transaction_log ?r = transaction_log ?t" using b by (simp add: same_handler_def)
  have d: "depth ?r = depth h + (length mss - j)"
    using depth_nest [of h "take (length mss - j) mss"] log by (simp add: depth_def)
  have e: "(transaction_active ?r \<longleftrightarrow> j < length mss) \<and>
      fst (rollbacks (Suc (length mss)) (nest h mss)) = Inl NoActiveTransactionError"
    if inactive: "\<not> transaction_active h"
  proof -
    have h0: "transaction_log h = []" using inactive by (simp add: transaction_active_def)
    then have dh: "depth h = 0" by (simp add: depth_def)
    have "transaction_active ?r \<longleftrightarrow> j < length mss"
    proof (cases "j < length mss")
      case True
      then have "0 < depth ?r" using d by simp
      then have "transaction_log ?r \<noteq> []" by (auto simp: depth_def)
      then show ?thesis using True by (simp add: transaction_active_def)
    next
      case False
      then have "?t = h" using j by simp
      then show ?thesis using False log h0 by (simp add: transaction_active_def)
    qed
    moreover have "fst (rollbacks (Suc (length mss)) (nest h mss)) = Inl NoActiveTransactionError"
    proof -
      let ?n = "rollbacks (length mss) (nest h mss)"
      have f: "fst ?n = Inr ()" and s: "same_handler (snd ?n) h"
        using rollbacks_nest [of "length mss" mss h] by simp_all
      obtain hn where n: "?n = (Inr (), hn)" using f by (cases ?n) auto
      have l: "transaction_log hn = []" using s n h0 by (simp add: same_handler_def)
      have "rollbacks (length mss + Suc 0) (nest h mss) = rollbacks (Suc 0) hn"
        by (simp only: rollbacks_add n prod.case sum.case)
      then have "rollbacks (Suc (length mss)) (nest h mss) = rollbacks (Suc 0) hn"
        by (simp only: add_Suc_right add_0_right)
      then show ?thesis using l by (simp add: handler_rollback_inactive)
    qed
    ultimately show ?thesis by simp
  qed
  show ?thesis using a b d e depth_nest [of h mss] by blast
qed

theorem nesting_depth_tracks_begins_witness:
  "Suc 0 \<le> length [[MSet ''b'' 2], [MSet ''b'' 6]] \<and>
   \<not> transaction_active handler_init \<and>
   fst (rollbacks (Suc 0) (nest handler_init [[MSet ''b'' 2], [MSet ''b'' 6]])) = Inr () \<and>
   data (client (snd (rollbacks (Suc 0) (nest handler_init [[MSet ''b'' 2], [MSet ''b'' 6]]))))
     ''b'' = Some 2 \<and>
   transaction_log (snd (rollbacks (Suc 0) (nest handler_init [[MSet ''b'' 2], [MSet ''b'' 6]]))) =
     [Marker, Entry \<lparr>key = ''b'', old_value = None, new_value = Some 2\<rparr>] \<and>
   depth (snd (rollbacks (Suc 0) (nest handler_init [[MSet ''b'' 2], [MSet ''b'' 6]]))) = 1 \<and>
   transaction_active
     (snd (rollbacks (Suc 0) (nest handler_init [[MSet ''b'' 2], [MSet ''b'' 6]]))) \<and>
   fst (rollbacks (Suc (Suc (Suc 0))) (nest handler_init [[MSet ''b'' 2], [MSet ''b'' 6]])) =
     Inl NoActiveTransactionError"
  using nesting_depth_tracks_begins [of "Suc 0" "[[MSet ''b'' 2], [MSet ''b'' 6]]" handler_init]
  by (simp add: eval_defs same_handler_def same_client_def)

end
